theory Spec2Isabelle
  imports Main "HOL-Library.Sublist"
begin

section \<open>Python strings and the Unicode facts the engine depends on\<close>

text \<open>
  A Python \<open>str\<close> is a sequence of Unicode code points; it is modelled as a list of
  natural numbers. String constants of the source are written as Isabelle string
  literals and turned into code points by \<open>cps\<close> (all of them are ASCII).
\<close>

type_synonym pystr = "nat list"

definition cps :: "string \<Rightarrow> pystr" where
  "cps s = map of_char s"

text \<open>
  \<open>\d\<close> in a \<open>str\<close> pattern is every code point of category Nd. The table is the one of
  Unicode 14.0 (CPython 3.11): runs of ten consecutive code points starting at the
  listed values (the mathematical digits U+1D7CE..U+1D7FF are five such runs).
\<close>

definition nd_starts :: "nat list" where
  "nd_starts =
    [0x30, 0x660, 0x6F0, 0x7C0, 0x966, 0x9E6, 0xA66, 0xAE6, 0xB66, 0xBE6, 0xC66, 0xCE6,
     0xD66, 0xDE6, 0xE50, 0xED0, 0xF20, 0x1040, 0x1090, 0x17E0, 0x1810, 0x1946, 0x19D0,
     0x1A80, 0x1A90, 0x1B50, 0x1BB0, 0x1C40, 0x1C50, 0xA620, 0xA8D0, 0xA900, 0xA9D0,
     0xA9F0, 0xAA50, 0xABF0, 0xFF10, 0x104A0, 0x10D30, 0x11066, 0x110F0, 0x11136,
     0x111D0, 0x112F0, 0x11450, 0x114D0, 0x11650, 0x116C0, 0x11730, 0x118E0, 0x11950,
     0x11C50, 0x11D50, 0x11DA0, 0x16A60, 0x16AC0, 0x16B50, 0x1D7CE, 0x1D7D8, 0x1D7E2,
     0x1D7EC, 0x1D7F6, 0x1E140, 0x1E2F0, 0x1E950, 0x1FBF0]"

definition uni_isdecimal :: "nat \<Rightarrow> bool" where
  "uni_isdecimal c =
     (if c < 0x80 then 0x30 \<le> c \<and> c \<le> 0x39
      else list_ex (\<lambda>s. s \<le> c \<and> c < s + 10) nd_starts)"

text \<open>\<open>\s\<close> in a \<open>str\<close> pattern is every code point for which \<open>str.isspace\<close> holds.\<close>

definition uni_isspace :: "nat \<Rightarrow> bool" where
  "uni_isspace c =
     ((0x09 \<le> c \<and> c \<le> 0x0D) \<or> (0x1C \<le> c \<and> c \<le> 0x20) \<or> c = 0x85 \<or> c = 0xA0
      \<or> c = 0x1680 \<or> (0x2000 \<le> c \<and> c \<le> 0x200A) \<or> c = 0x2028 \<or> c = 0x2029
      \<or> c = 0x202F \<or> c = 0x205F \<or> c = 0x3000)"

text \<open>
  \<open>str.lower\<close>. Three kinds of code points have a lower-case form that holds an ASCII
  character: \<open>A\<close>..\<open>Z\<close>, U+0130 (capital I with dot, which becomes \<open>i\<close> followed by
  U+0307) and U+212A (the Kelvin sign, which becomes \<open>k\<close>). Every other code point
  lower-cases to a single non-ASCII code point or to itself; it stands for its own
  lower-case form here. The engine uses the lowered text only to look for the ASCII
  keys of the taxonomy, and the outcome of that test is the same.
\<close>

definition lower_cp :: "nat \<Rightarrow> pystr" where
  "lower_cp c =
     (if 0x41 \<le> c \<and> c \<le> 0x5A then [c + 0x20]
      else if c = 0x130 then [0x69, 0x307]
      else if c = 0x212A then [0x6B]
      else [c])"

definition str_lower :: "pystr \<Rightarrow> pystr" where
  "str_lower s = concat (map lower_cp s)"

text \<open>\<open>str.upper\<close>, exact on ASCII; the engine applies it to taxonomy keys only.\<close>

definition upper_cp :: "nat \<Rightarrow> pystr" where
  "upper_cp c = (if 0x61 \<le> c \<and> c \<le> 0x7A then [c - 0x20] else [c])"

definition str_upper :: "pystr \<Rightarrow> pystr" where
  "str_upper s = concat (map upper_cp s)"

text \<open>The operator \<open>in\<close> on strings: \<open>sub in s\<close>.\<close>

fun py_in :: "pystr \<Rightarrow> pystr \<Rightarrow> bool" where
  "py_in sub [] = (sub = [])"
| "py_in sub (c # cs) = (prefix sub (c # cs) \<or> py_in sub cs)"

section \<open>The regular expressions of the engine\<close>

text \<open>
  The four patterns of the source repeat single-character classes only and have one
  group, the optional country-code prefix. \<open>Plus\<close> is a greedy \<open>+\<close>, \<open>Rep P m n\<close> a greedy
  \<open>{m,n}\<close>, \<open>Opt\<close> a greedy \<open>?\<close>.
\<close>

datatype rx =
    Cls "nat \<Rightarrow> bool"
  | Seq rx rx
  | Opt rx
  | Plus "nat \<Rightarrow> bool"
  | Rep "nat \<Rightarrow> bool" nat nat

text \<open>
  Backtracking matcher: \<open>rx_match r s\<close> lists what is left of \<open>s\<close> after each way of
  matching \<open>r\<close> at the start of \<open>s\<close>, in the order in which the backtracking engine
  tries them. The head of the list is the match \<open>re\<close> reports.
\<close>

fun rx_match :: "rx \<Rightarrow> pystr \<Rightarrow> pystr list" where
  "rx_match (Cls P) [] = []"
| "rx_match (Cls P) (c # cs) = (if P c then [cs] else [])"
| "rx_match (Seq a b) s = concat (map (rx_match b) (rx_match a s))"
| "rx_match (Opt a) s = rx_match a s @ [s]"
| "rx_match (Plus P) [] = []"
| "rx_match (Plus P) (c # cs) = (if P c then rx_match (Plus P) cs @ [cs] else [])"
| "rx_match (Rep P m n) [] = (if m = 0 then [[]] else [])"
| "rx_match (Rep P m n) (c # cs) =
     (if 0 < n \<and> P c
      then rx_match (Rep P (m - 1) (n - 1)) cs @ (if m = 0 then [c # cs] else [])
      else if m = 0 then [c # cs] else [])"

text \<open>
  The search of the engine from the current position: the first start position with a
  match wins. It returns the text skipped before the match and the text left after it.
  With \<open>must_advance\<close> set, an empty match at the first position is not accepted
  (\<open>re.sub\<close> sets it after an empty match).
\<close>

fun sre_search :: "rx \<Rightarrow> bool \<Rightarrow> pystr \<Rightarrow> (pystr \<times> pystr) option" where
  "sre_search r must_advance [] =
     (case (if must_advance then [] else rx_match r []) of
        rest # _ \<Rightarrow> Some ([], rest)
      | [] \<Rightarrow> None)"
| "sre_search r must_advance (c # cs) =
     (case (if must_advance
            then filter (\<lambda>rest. length rest < length (c # cs)) (rx_match r (c # cs))
            else rx_match r (c # cs)) of
        rest # _ \<Rightarrow> Some ([], rest)
      | [] \<Rightarrow> map_option (\<lambda>(pre, rest). (c # pre, rest)) (sre_search r False cs))"

text \<open>\<open>re.search(pattern, text)\<close>: the span of the first match, or \<open>None\<close>.\<close>

definition re_search :: "rx \<Rightarrow> pystr \<Rightarrow> (nat \<times> nat) option" where
  "re_search r text =
     map_option (\<lambda>(pre, rest). (length pre, length text - length rest)) (sre_search r False text)"

lemma rx_match_length: "t \<in> set (rx_match r s) \<Longrightarrow> length t \<le> length s"
proof (induction r s arbitrary: t rule: rx_match.induct)
  case (3 a b s)
  then obtain u where u: "u \<in> set (rx_match a s)" "t \<in> set (rx_match b u)"
    by auto
  from "3.IH"(1) [OF u(1)] "3.IH"(2) [OF u(1) u(2)] show ?case
    by simp
next
  case (6 P c cs)
  then show ?case
    by (fastforce split: if_splits)
next
  case (8 P m n c cs)
  then show ?case
    by (fastforce split: if_splits)
qed (auto split: if_splits)

lemma sre_search_length:
  "sre_search r adv s = Some (pre, rest) \<Longrightarrow>
     length pre + length rest \<le> length s \<and> (adv \<and> pre = [] \<longrightarrow> length rest < length s)"
proof (induction s arbitrary: adv pre rest)
  case Nil
  then obtain ts where "rx_match r [] = rest # ts" "pre = []" "\<not> adv"
    by (auto split: list.splits if_splits)
  then show ?case
    using rx_match_length [of rest r "[]"] by simp
next
  case (Cons c cs)
  let ?cands = "if adv then filter (\<lambda>t. length t < length (c # cs)) (rx_match r (c # cs))
                else rx_match r (c # cs)"
  show ?case
  proof (cases ?cands)
    case Nil
    with Cons.prems obtain pre' where s: "sre_search r False cs = Some (pre', rest)" "pre = c # pre'"
      by auto
    from Cons.IH [OF s(1)] s(2) show ?thesis
      by simp
  next
    case (Cons t ts)
    with Cons.prems have eq: "pre = []" "rest = t"
      by auto
    have "t \<in> set ?cands"
      using Cons by simp
    then have "t \<in> set (rx_match r (c # cs))" "adv \<longrightarrow> length t < length (c # cs)"
      by (auto split: if_splits)
    with rx_match_length [of t r "c # cs"] eq show ?thesis
      by simp
  qed
qed

text \<open>
  \<open>re.sub(pattern, repl, string)\<close> for a replacement without backslashes (every
  replacement of the source is such a literal): the matches are found from left to
  right, each search starting where the previous match ended; after an empty match the
  next one has to advance.
\<close>

function re_sub_loop :: "rx \<Rightarrow> pystr \<Rightarrow> bool \<Rightarrow> pystr \<Rightarrow> pystr" where
  "re_sub_loop r repl must_advance s =
     (case sre_search r must_advance s of
        None \<Rightarrow> s
      | Some (pre, rest) \<Rightarrow>
          pre @ repl @ re_sub_loop r repl (length pre + length rest = length s) rest)"
  by pat_completeness auto
termination
proof (relation "measures [\<lambda>(r, repl, adv, s). length s, \<lambda>(r, repl, adv, s). if adv then 0 else 1]")
  show "wf (measures [\<lambda>(r, repl, adv, s). length s, \<lambda>(r, repl, adv, s). if adv then 0 else (1::nat)])"
    by simp
next
  fix r :: rx and repl :: pystr and must_advance :: bool and s x y :: pystr
    and x2 :: "pystr \<times> pystr"
  assume "sre_search r must_advance s = Some x2" "(x, y) = x2"
  then have "sre_search r must_advance s = Some (x, y)"
    by simp
  from sre_search_length [OF this]
  show "((r, repl, length x + length y = length s, y), (r, repl, must_advance, s))
         \<in> measures [\<lambda>(r, repl, adv, s). length s, \<lambda>(r, repl, adv, s). if adv then 0 else 1]"
    by (cases x) auto
qed

definition re_sub :: "rx \<Rightarrow> pystr \<Rightarrow> pystr \<Rightarrow> pystr" where
  "re_sub r repl s = re_sub_loop r repl False s"

subsection \<open>The patterns\<close>

definition in_range :: "char \<Rightarrow> char \<Rightarrow> nat \<Rightarrow> bool" where
  "in_range lo hi c = (of_char lo \<le> c \<and> c \<le> of_char hi)"

definition is_chr :: "char \<Rightarrow> nat \<Rightarrow> bool" where
  "is_chr x c = (c = of_char x)"

definition ascii_alnum :: "nat \<Rightarrow> bool" where
  "ascii_alnum c = (in_range CHR ''a'' CHR ''z'' c \<or> in_range CHR ''A'' CHR ''Z'' c
                    \<or> in_range CHR ''0'' CHR ''9'' c)"

text \<open>\<open>[a-zA-Z0-9_.+-]\<close>, \<open>[a-zA-Z0-9-]\<close> and \<open>[a-zA-Z0-9-.]\<close>\<close>

definition email_local :: "nat \<Rightarrow> bool" where
  "email_local c = (ascii_alnum c \<or> is_chr CHR ''_'' c \<or> is_chr CHR ''.'' c
                    \<or> is_chr CHR ''+'' c \<or> is_chr CHR ''-'' c)"

definition email_domain :: "nat \<Rightarrow> bool" where
  "email_domain c = (ascii_alnum c \<or> is_chr CHR ''-'' c)"

definition email_tail :: "nat \<Rightarrow> bool" where
  "email_tail c = (ascii_alnum c \<or> is_chr CHR ''-'' c \<or> is_chr CHR ''.'' c)"

text \<open>\<open>[a-zA-Z0-9_.+-]+@[a-zA-Z0-9-]+\.[a-zA-Z0-9-.]+\<close>\<close>

definition email_rx :: rx where
  "email_rx =
     Seq (Plus email_local)
       (Seq (Cls (is_chr CHR ''@''))
         (Seq (Plus email_domain)
           (Seq (Cls (is_chr CHR ''.'')) (Plus email_tail))))"

text \<open>\<open>[\s-]\<close>\<close>

definition space_or_hyphen :: "nat \<Rightarrow> bool" where
  "space_or_hyphen c = (uni_isspace c \<or> is_chr CHR ''-'' c)"

text \<open>\<open>(\+?\d{1,3}[\s-]?)?(\d{10})\<close>\<close>

definition phone_rx :: rx where
  "phone_rx =
     Seq (Opt (Seq (Opt (Cls (is_chr CHR ''+'')))
                (Seq (Rep uni_isdecimal 1 3) (Opt (Cls space_or_hyphen)))))
         (Rep uni_isdecimal 10 10)"

text \<open>
  \<open>re.compile(re.escape(k), re.IGNORECASE)\<close>. \<open>re.escape\<close> puts a backslash before the
  special characters of \<open>k\<close>, so the compiled pattern is the sequence of the characters of
  \<open>k\<close> as literals. Under \<open>IGNORECASE\<close> a cased literal is compiled to its lower-case form
  \<open>lo\<close>, together with the code points that \<open>_EXTRA_CASES\<close> lists for \<open>lo\<close>, and a
  character of the text matches when \<open>_sre.unicode_tolower\<close> of it is one of them.
  \<open>sre_lower_unicode\<close> is the first code point of the lower-case form, under the same
  convention as \<open>lower_cp\<close>; the entries of \<open>_EXTRA_CASES\<close> are the ones for the ASCII
  letters and their partners. \<open>lit_ignorecase\<close> is exact for ASCII pattern characters.
\<close>

definition sre_lower_unicode :: "nat \<Rightarrow> nat" where
  "sre_lower_unicode c =
     (if 0x41 \<le> c \<and> c \<le> 0x5A then c + 0x20
      else if c = 0x130 then 0x69
      else if c = 0x212A then 0x6B
      else c)"

definition extra_cases :: "nat \<Rightarrow> nat list" where
  "extra_cases lo =
     (if lo = 0x69 then [0x131]
      else if lo = 0x73 then [0x17F]
      else if lo = 0x131 then [0x69]
      else if lo = 0x17F then [0x73]
      else [])"

definition ascii_iscased :: "nat \<Rightarrow> bool" where
  "ascii_iscased c = (in_range CHR ''a'' CHR ''z'' c \<or> in_range CHR ''A'' CHR ''Z'' c)"

definition lit_ignorecase :: "nat \<Rightarrow> nat \<Rightarrow> bool" where
  "lit_ignorecase p c =
     (if \<not> ascii_iscased p then c = p
      else sre_lower_unicode c \<in> set (sre_lower_unicode p # extra_cases (sre_lower_unicode p)))"

fun compile_escaped_ignorecase :: "pystr \<Rightarrow> rx" where
  "compile_escaped_ignorecase [] = Rep (\<lambda>c. False) 0 0"
| "compile_escaped_ignorecase (p # ps) = Seq (Cls (lit_ignorecase p)) (compile_escaped_ignorecase ps)"

section \<open>SentinelCore\<close>

text \<open>\<open>self.taxonomy\<close>: a dictionary, iterated in insertion order.\<close>

definition taxonomy :: "(pystr \<times> pystr) list" where
  "taxonomy =
    [(cps ''google'', cps ''a Tier-1 Tech Corporation''),
     (cps ''microsoft'', cps ''a Global Software Leader''),
     (cps ''manager'', cps ''Strategic Director''),
     (cps ''engineer'', cps ''Technical Specialist''),
     (cps ''sql'', cps ''Structured Database Systems''),
     (cps ''hyderabad'', cps ''a major Tech Hub'')]"

definition phishing_line :: pystr where
  "phishing_line = cps ''LEAK: Direct email identified. Vulnerable to Phishing.''"

definition simswap_line :: pystr where
  "simswap_line = cps ''LEAK: Phone contact exposed. Vulnerable to SIM-swap.''"

definition recon_line :: "pystr \<Rightarrow> pystr" where
  "recon_line brand = cps ''RECON: Connection to '' @ str_upper brand @ cps '' found.''"

subsection \<open>\<open>simulate_adversary\<close>\<close>

text \<open>The loop over \<open>self.taxonomy.keys()\<close>, on the pair of \<open>score\<close> and \<open>logs\<close>.\<close>

fun scan_brands :: "pystr list \<Rightarrow> pystr \<Rightarrow> int \<times> pystr list \<Rightarrow> int \<times> pystr list" where
  "scan_brands [] text (score, logs) = (score, logs)"
| "scan_brands (brand # brands) text (score, logs) =
     (if py_in brand (str_lower text)
      then scan_brands brands text (score + 15, logs @ [recon_line brand])
      else scan_brands brands text (score, logs))"

definition simulate_adversary :: "pystr \<Rightarrow> int \<times> pystr list" where
  "simulate_adversary text =
     (let st = (0, []);
          st = (if re_search email_rx text \<noteq> None
                then (fst st + 40, snd st @ [phishing_line]) else st);
          st = (if re_search phone_rx text \<noteq> None
                then (fst st + 30, snd st @ [simswap_line]) else st);
          st = scan_brands (map fst taxonomy) text st
      in (min (fst st) 100, snd st))"

subsection \<open>\<open>fallback_harden\<close>\<close>

definition id_gateway :: pystr where
  "id_gateway = cps ''[ID_GATEWAY]''"

definition verified_line :: pystr where
  "verified_line = cps ''[VERIFIED_LINE]''"

text \<open>The loop over \<open>self.taxonomy.items()\<close>, on \<open>safe\<close>.\<close>

fun sub_terms :: "(pystr \<times> pystr) list \<Rightarrow> pystr \<Rightarrow> pystr" where
  "sub_terms [] safe = safe"
| "sub_terms ((k, v) # items) safe =
     sub_terms items (re_sub (compile_escaped_ignorecase k) v safe)"

definition fallback_harden :: "pystr \<Rightarrow> pystr" where
  "fallback_harden text =
     (let safe = text;
          safe = re_sub email_rx id_gateway safe;
          safe = re_sub phone_rx verified_line safe
      in sub_terms taxonomy safe)"

subsection \<open>\<open>nlp_harden\<close>\<close>

text \<open>
  The entity-recognition capability is the module-level \<open>nlp\<close>: \<open>None\<close> when the model
  could not be loaded, otherwise a callable whose call \<open>nlp(text)\<close> either raises or
  yields a document with the entity spans \<open>doc.ents\<close>. The field \<open>label\<close> is \<open>label_\<close> of the
  source, the label of the span as a string.
\<close>

datatype error = NlpError

record ent =
  start_char :: nat
  end_char :: nat
  label :: pystr

type_synonym capability = "pystr \<Rightarrow> error + ent list"

text \<open>\<open>try: nlp = spacy.load(...) except Exception: nlp = None\<close>\<close>

definition load_model :: "error + capability \<Rightarrow> capability option" where
  "load_model loaded = (case loaded of Inl e \<Rightarrow> None | Inr model \<Rightarrow> Some model)"

definition hidden_labels :: "pystr list" where
  "hidden_labels = [cps ''PERSON'', cps ''ORG'', cps ''GPE'', cps ''FAC'', cps ''LOC'']"

text \<open>The body of the loop over the entities, and the loop in its iteration order.\<close>

definition redact_ent :: "ent \<Rightarrow> pystr \<Rightarrow> pystr" where
  "redact_ent e hardened =
     (if label e \<in> set hidden_labels
      then take (start_char e) hardened @ (cps ''[HIDDEN_'' @ label e @ cps '']'')
             @ drop (end_char e) hardened
      else hardened)"

fun redact_ents :: "ent list \<Rightarrow> pystr \<Rightarrow> pystr" where
  "redact_ents [] hardened = hardened"
| "redact_ents (e # es) hardened = redact_ents es (redact_ent e hardened)"

definition nlp_harden :: "capability option \<Rightarrow> pystr \<Rightarrow> error + pystr" where
  "nlp_harden nlp text =
     (case nlp of
        None \<Rightarrow> Inr (fallback_harden text)
      | Some model \<Rightarrow>
          (case model text of
             Inl e \<Rightarrow> Inl e
           | Inr ents \<Rightarrow>
               (let hardened = redact_ents (rev ents) text;
                    hardened = re_sub email_rx id_gateway hardened;
                    hardened = re_sub phone_rx verified_line hardened
                in Inr hardened)))"

section \<open>What the patterns mean\<close>

text \<open>
  The language of a pattern, independent of the order in which the matcher tries its
  alternatives, and what it is for a text to contain a substring of that shape.
\<close>

fun lang :: "rx \<Rightarrow> pystr set" where
  "lang (Cls P) = {[c] | c. P c}"
| "lang (Seq a b) = {u @ v | u v. u \<in> lang a \<and> v \<in> lang b}"
| "lang (Opt a) = insert [] (lang a)"
| "lang (Plus P) = {w. w \<noteq> [] \<and> list_all P w}"
| "lang (Rep P m n) = {w. m \<le> length w \<and> length w \<le> n \<and> list_all P w}"

definition contains_match :: "rx \<Rightarrow> pystr \<Rightarrow> bool" where
  "contains_match r text = (\<exists>pre w post. text = pre @ w @ post \<and> w \<in> lang r)"

text \<open>
  \<open>replaces_every r repl s out\<close>: the text \<open>s\<close> splits into gaps and matches of \<open>r\<close>, followed by
  a tail, such that no gap and not the tail contains a substring that matches \<open>r\<close>, and
  \<open>out\<close> is \<open>s\<close> with \<open>repl\<close> in the place of each of these matches.
\<close>

definition replaces_every :: "rx \<Rightarrow> pystr \<Rightarrow> pystr \<Rightarrow> pystr \<Rightarrow> bool" where
  "replaces_every r repl s out =
     (\<exists>segs tail.
        s = concat (map (\<lambda>(gap, m). gap @ m) segs) @ tail \<and>
        out = concat (map (\<lambda>(gap, m). gap @ repl) segs) @ tail \<and>
        list_all (\<lambda>(gap, m). m \<in> lang r \<and> \<not> contains_match r gap) segs \<and>
        \<not> contains_match r tail)"

section \<open>The assessment in the words of the specification\<close>

text \<open>
  The taxonomy terms that fire on a text, in taxonomy order, and the assessment the
  specification describes: 40 for an email-shaped substring, 30 for a phone-shaped
  substring, 15 for each term that fires, the sum capped at 100; the evidence lines in the
  same order.
\<close>

definition fired_terms :: "pystr \<Rightarrow> pystr list" where
  "fired_terms text = filter (\<lambda>term. sublist term (str_lower text)) (map fst taxonomy)"

definition assess_spec :: "pystr \<Rightarrow> int \<times> pystr list" where
  "assess_spec text =
     (min ((if contains_match email_rx text then 40 else 0)
           + (if contains_match phone_rx text then 30 else 0)
           + 15 * int (length (fired_terms text))) 100,
      (if contains_match email_rx text then [phishing_line] else [])
      @ (if contains_match phone_rx text then [simswap_line] else [])
      @ map recon_line (fired_terms text))"

section \<open>The fallback path in the words of the specification\<close>

text \<open>
  Every email-shaped substring is replaced, then every phone-shaped substring, then, term
  by term in taxonomy order, every occurrence of the term in any letter case.
\<close>

fun terms_replaced :: "(pystr \<times> pystr) list \<Rightarrow> pystr \<Rightarrow> pystr \<Rightarrow> bool" where
  "terms_replaced [] s out = (out = s)"
| "terms_replaced ((k, v) # items) s out =
     (\<exists>s'. replaces_every (compile_escaped_ignorecase k) v s s' \<and> terms_replaced items s' out)"

definition fallback_spec :: "pystr \<Rightarrow> pystr \<Rightarrow> bool" where
  "fallback_spec text out =
     (\<exists>s1 s2. replaces_every email_rx id_gateway text s1 \<and>
              replaces_every phone_rx verified_line s1 s2 \<and>
              terms_replaced taxonomy s2 out)"

section \<open>The entity path in the words of the specification\<close>

text \<open>
  Redaction of the spans sorted by start position, descending; spans in document order
  that do not overlap and lie inside a text of length \<open>n\<close>, as \<open>doc.ents\<close> of spaCy are;
  and the replacement of every span at its offsets in the original text, where
  \<open>redact_at pos ents s\<close> works on the part \<open>s\<close> of the text that starts at offset \<open>pos\<close>.
\<close>

definition redact_sorted_spec :: "ent list \<Rightarrow> pystr \<Rightarrow> pystr" where
  "redact_sorted_spec ents text = redact_ents (rev (sort_key start_char ents)) text"

fun spans_ok :: "nat \<Rightarrow> ent list \<Rightarrow> nat \<Rightarrow> bool" where
  "spans_ok pos [] n = True"
| "spans_ok pos (e # es) n =
     (pos \<le> start_char e \<and> start_char e < end_char e \<and> end_char e \<le> n \<and> spans_ok (end_char e) es n)"

definition span_out :: "ent \<Rightarrow> pystr \<Rightarrow> pystr" where
  "span_out e seg =
     (if label e \<in> set hidden_labels then cps ''[HIDDEN_'' @ label e @ cps '']'' else seg)"

fun redact_at :: "nat \<Rightarrow> ent list \<Rightarrow> pystr \<Rightarrow> pystr" where
  "redact_at pos [] s = s"
| "redact_at pos (e # es) s =
     take (start_char e - pos) s
     @ span_out e (take (end_char e - start_char e) (drop (start_char e - pos) s))
     @ redact_at (end_char e) es (drop (end_char e - pos) s)"

section \<open>Texts on which the two case-insensitive tests agree\<close>

text \<open>
  The scorer lowers the text with \<open>str.lower\<close> and looks for the key; the hardener matches
  the key under \<open>IGNORECASE\<close>. The two differ on U+0130 (lowered to two code points, yet
  matched by \<open>i\<close>), U+0131 (matched by \<open>i\<close>) and U+017F (matched by \<open>s\<close>).
\<close>

definition no_special_casing :: "pystr \<Rightarrow> bool" where
  "no_special_casing text = list_all (\<lambda>c. c \<noteq> 0x130 \<and> c \<noteq> 0x131 \<and> c \<noteq> 0x17F) text"

section \<open>What a pattern can consume, and the opening brackets of a text\<close>

text \<open>
  \<open>rx_admits r c\<close>: some character class of \<open>r\<close> accepts the code point \<open>c\<close>.
  \<open>brackets w\<close> counts the occurrences of \<open>[\<close> in \<open>w\<close>; both placeholders of the
  fallback path start with one.
\<close>

fun rx_admits :: "rx \<Rightarrow> nat \<Rightarrow> bool" where
  "rx_admits (Cls P) c = P c"
| "rx_admits (Seq a b) c = (rx_admits a c \<or> rx_admits b c)"
| "rx_admits (Opt a) c = rx_admits a c"
| "rx_admits (Plus P) c = P c"
| "rx_admits (Rep P m n) c = P c"

definition brackets :: "pystr \<Rightarrow> nat" where
  "brackets w = count_list w 0x5B"

section \<open>Capabilities used in the examples\<close>

text \<open>A capability that finds no entity.\<close>

definition no_entities :: capability where
  "no_entities text = Inr []"

text \<open>A capability whose call raises.\<close>

definition failing_model :: capability where
  "failing_model text = Inl NlpError"

text \<open>
  Two PERSON spans of \<open>Alice met Bob\<close>, listed from right to left, a capability that
  returns them in this order and one that returns them in document order.
\<close>

definition unsorted_ents :: "ent list" where
  "unsorted_ents =
     [\<lparr>start_char = 10, end_char = 13, label = cps ''PERSON''\<rparr>,
      \<lparr>start_char = 0, end_char = 5, label = cps ''PERSON''\<rparr>]"

definition unsorted_model :: capability where
  "unsorted_model text = Inr unsorted_ents"

definition sorted_model :: capability where
  "sorted_model text = Inr (rev unsorted_ents)"

text \<open>The text \<open>U+017F q l\<close>: a long s followed by \<open>ql\<close>.\<close>

definition long_s_ql :: pystr where
  "long_s_ql = [0x17F, 0x71, 0x6C]"


section \<open>Properties of the matcher and of the search\<close>

lemma rx_match_Plus: "set (rx_match (Plus P) s) = {t. \<exists>w. w \<noteq> [] \<and> list_all P w \<and> s = w @ t}"
proof (induction s)
  case Nil
  then show ?case by simp
next
  case (Cons c cs)
  show ?case
  proof (cases "P c")
    case False
    then show ?thesis
      by (auto simp: Cons_eq_append_conv)
  next
    case True
    have "{t. \<exists>w. w \<noteq> [] \<and> list_all P w \<and> c # cs = w @ t}
          = insert cs {t. \<exists>w. w \<noteq> [] \<and> list_all P w \<and> cs = w @ t}" (is "?L = ?R")
    proof (intro set_eqI iffI)
      fix t assume "t \<in> ?L"
      then obtain w where w: "w \<noteq> []" "list_all P w" "c # cs = w @ t" by blast
      then obtain w' where w': "w = c # w'" "cs = w' @ t"
        by (auto simp: Cons_eq_append_conv)
      with w show "t \<in> ?R"
        by (cases "w' = []") auto
    next
      fix t assume "t \<in> ?R"
      then consider "t = cs" | w where "w \<noteq> []" "list_all P w" "cs = w @ t" by blast
      then show "t \<in> ?L"
      proof cases
        case 1
        with True have "[c] \<noteq> [] \<and> list_all P [c] \<and> c # cs = [c] @ t" by simp
        then show ?thesis by blast
      next
        case 2
        with True have "c # w \<noteq> [] \<and> list_all P (c # w) \<and> c # cs = (c # w) @ t" by simp
        then show ?thesis by blast
      qed
    qed
    with True Cons show ?thesis by auto
  qed
qed

lemma rx_match_Rep:
  "set (rx_match (Rep P m n) s) = {t. \<exists>w. m \<le> length w \<and> length w \<le> n \<and> list_all P w \<and> s = w @ t}"
proof (induction s arbitrary: m n)
  case Nil
  then show ?case by auto
next
  case (Cons c cs)
  let ?S = "\<lambda>m n s. {t. \<exists>w. m \<le> length w \<and> length w \<le> n \<and> list_all P w \<and> s = w @ t}"
  have split: "?S m n (c # cs) =
      (if 0 < n \<and> P c then ?S (m - 1) (n - 1) cs else {}) \<union> (if m = 0 then {c # cs} else {})"
    (is "?L = ?R")
  proof (intro set_eqI iffI)
    fix t assume "t \<in> ?L"
    then obtain w where w: "m \<le> length w" "length w \<le> n" "list_all P w" "c # cs = w @ t" by blast
    show "t \<in> ?R"
    proof (cases w)
      case Nil
      with w show ?thesis by simp
    next
      case (Cons x w')
      with w have "x = c" "cs = w' @ t" "P c" "0 < n" "m - 1 \<le> length w'" "length w' \<le> n - 1" "list_all P w'"
        by auto
      then show ?thesis by auto
    qed
  next
    fix t assume t: "t \<in> ?R"
    show "t \<in> ?L"
    proof (cases "m = 0 \<and> t = c # cs")
      case True
      then have "m \<le> length ([]::pystr) \<and> length ([]::pystr) \<le> n \<and> list_all P [] \<and> c # cs = [] @ t" by simp
      then show ?thesis by blast
    next
      case False
      with t have c: "0 < n" "P c" and "t \<in> ?S (m - 1) (n - 1) cs"
        by (auto split: if_splits)
      then obtain w where "m - 1 \<le> length w" "length w \<le> n - 1" "list_all P w" "cs = w @ t" by blast
      with c have "m \<le> length (c # w) \<and> length (c # w) \<le> n \<and> list_all P (c # w) \<and> c # cs = (c # w) @ t"
        by auto
      then show ?thesis by blast
    qed
  qed
  show ?case
    unfolding split using Cons [of "m - 1" "n - 1"] by auto
qed

lemma rx_match_lang: "set (rx_match r s) = {t. \<exists>w \<in> lang r. s = w @ t}"
proof (induction r arbitrary: s)
  case (Cls P)
  then show ?case by (cases s) auto
next
  case (Seq a b)
  show ?case
  proof (intro set_eqI iffI)
    fix t assume "t \<in> set (rx_match (Seq a b) s)"
    then obtain u where "u \<in> set (rx_match a s)" "t \<in> set (rx_match b u)" by auto
    with Seq obtain w1 w2 where "w1 \<in> lang a" "s = w1 @ u" "w2 \<in> lang b" "u = w2 @ t" by auto
    then have "w1 @ w2 \<in> lang (Seq a b)" "s = (w1 @ w2) @ t" by auto
    then show "t \<in> {t. \<exists>w \<in> lang (Seq a b). s = w @ t}" by blast
  next
    fix t assume "t \<in> {t. \<exists>w \<in> lang (Seq a b). s = w @ t}"
    then obtain w1 w2 where w: "w1 \<in> lang a" "w2 \<in> lang b" "s = (w1 @ w2) @ t" by auto
    then have "w2 @ t \<in> set (rx_match a s)" using Seq.IH(1) [of s] by auto
    moreover have "t \<in> set (rx_match b (w2 @ t))" using Seq.IH(2) [of "w2 @ t"] w by auto
    ultimately show "t \<in> set (rx_match (Seq a b) s)" by auto
  qed
next
  case (Opt a)
  then show ?case by auto
next
  case (Plus P)
  show ?case by (simp add: rx_match_Plus)
next
  case (Rep P m n)
  show ?case by (simp add: rx_match_Rep)
qed


lemma rx_match_Nil_iff: "rx_match r s = [] \<longleftrightarrow> \<not> (\<exists>w t. s = w @ t \<and> w \<in> lang r)"
proof -
  have "rx_match r s = [] \<longleftrightarrow> set (rx_match r s) = {}" by simp
  also have "\<dots> \<longleftrightarrow> \<not> (\<exists>w t. s = w @ t \<and> w \<in> lang r)"
    unfolding rx_match_lang by blast
  finally show ?thesis .
qed

lemma contains_match_Nil: "contains_match r [] \<longleftrightarrow> [] \<in> lang r"
  by (auto simp: contains_match_def)

lemma contains_match_Cons:
  "contains_match r (c # cs) \<longleftrightarrow> (\<exists>w t. c # cs = w @ t \<and> w \<in> lang r) \<or> contains_match r cs"
proof
  assume "contains_match r (c # cs)"
  then obtain pre w post where *: "c # cs = pre @ w @ post" "w \<in> lang r"
    by (auto simp: contains_match_def)
  show "(\<exists>w t. c # cs = w @ t \<and> w \<in> lang r) \<or> contains_match r cs"
  proof (cases pre)
    case Nil
    with * show ?thesis by auto
  next
    case (Cons x pre')
    with * have "cs = pre' @ w @ post" by simp
    with * show ?thesis by (auto simp: contains_match_def)
  qed
next
  assume "(\<exists>w t. c # cs = w @ t \<and> w \<in> lang r) \<or> contains_match r cs"
  then show "contains_match r (c # cs)"
  proof
    assume "\<exists>w t. c # cs = w @ t \<and> w \<in> lang r"
    then obtain w t where "c # cs = [] @ w @ t" "w \<in> lang r" by auto
    then show ?thesis unfolding contains_match_def by blast
  next
    assume "contains_match r cs"
    then obtain pre w post where "cs = pre @ w @ post" "w \<in> lang r"
      by (auto simp: contains_match_def)
    then have "c # cs = (c # pre) @ w @ post" "w \<in> lang r" by auto
    then show ?thesis unfolding contains_match_def by blast
  qed
qed

lemma sre_search_None_iff: "sre_search r False s = None \<longleftrightarrow> \<not> contains_match r s"
proof (induction s)
  case Nil
  have "rx_match r [] = [] \<longleftrightarrow> [] \<notin> lang r"
    by (simp add: rx_match_Nil_iff)
  moreover have "sre_search r False [] = None \<longleftrightarrow> rx_match r [] = []"
    by (cases "rx_match r []") simp_all
  ultimately show ?case
    by (simp add: contains_match_Nil)
next
  case (Cons c cs)
  have "sre_search r False (c # cs) = None
        \<longleftrightarrow> rx_match r (c # cs) = [] \<and> sre_search r False cs = None"
    by (simp split: list.splits)
  with Cons show ?case
    by (simp add: contains_match_Cons rx_match_Nil_iff)
qed

lemma re_search_iff: "re_search r text \<noteq> None \<longleftrightarrow> contains_match r text"
  by (simp add: re_search_def sre_search_None_iff)

lemma sre_search_Some:
  "sre_search r False s = Some (pre, rest) \<Longrightarrow>
     \<exists>m. s = pre @ m @ rest \<and> m \<in> lang r \<and>
         (\<forall>p q. pre = p @ q \<longrightarrow> q \<noteq> [] \<longrightarrow> rx_match r (q @ m @ rest) = [])"
proof (induction s arbitrary: pre)
  case Nil
  then obtain ts where "rx_match r [] = rest # ts" "pre = []"
    by (auto split: list.splits)
  then have "rest \<in> set (rx_match r [])" "pre = []" by simp_all
  then have "rest = []" "[] \<in> lang r" "pre = []"
    unfolding rx_match_lang by auto
  then show ?case by auto
next
  case (Cons c cs)
  show ?case
  proof (cases "rx_match r (c # cs)")
    case Nil
    with Cons.prems obtain pre' where s: "sre_search r False cs = Some (pre', rest)" "pre = c # pre'"
      by auto
    from Cons.IH [OF s(1)] obtain m where m: "cs = pre' @ m @ rest" "m \<in> lang r"
      "\<forall>p q. pre' = p @ q \<longrightarrow> q \<noteq> [] \<longrightarrow> rx_match r (q @ m @ rest) = []"
      by blast
    have "rx_match r (q @ m @ rest) = []" if "pre = p @ q" "q \<noteq> []" for p q
    proof (cases p)
      case Nil
      with that s(2) m(1) have "q @ m @ rest = c # cs" by simp
      with \<open>rx_match r (c # cs) = []\<close> show ?thesis by simp
    next
      case (Cons x p')
      with that s(2) have "pre' = p' @ q" by simp
      with m(3) that(2) show ?thesis by blast
    qed
    with m(1,2) s(2) show ?thesis by auto
  next
    case (Cons t ts)
    with Cons.prems have eq: "pre = []" "rest = t"
      by auto
    from Cons have "t \<in> set (rx_match r (c # cs))" by simp
    then obtain w where "w \<in> lang r" "c # cs = w @ t"
      unfolding rx_match_lang by auto
    with eq show ?thesis by auto
  qed
qed

lemma no_start_no_match:
  assumes "[] \<notin> lang r"
    and "\<forall>p q. pre = p @ q \<longrightarrow> q \<noteq> [] \<longrightarrow> rx_match r (q @ x) = []"
  shows "\<not> contains_match r pre"
proof
  assume "contains_match r pre"
  then obtain a w b where w: "pre = a @ w @ b" "w \<in> lang r"
    by (auto simp: contains_match_def)
  with assms(1) have "w @ b \<noteq> []" by auto
  with assms(2) w(1) have "rx_match r ((w @ b) @ x) = []" by blast
  moreover have "b @ x \<in> set (rx_match r ((w @ b) @ x))"
    unfolding rx_match_lang using w(2) by auto
  ultimately show False by simp
qed

lemma re_sub_loop_replaces_every:
  assumes "[] \<notin> lang r"
  shows "replaces_every r repl s (re_sub_loop r repl False s)"
proof (induction "length s" arbitrary: s rule: less_induct)
  case less
  show ?case
  proof (cases "sre_search r False s")
    case None
    then have "re_sub_loop r repl False s = s" by simp
    moreover from None have "\<not> contains_match r s" by (simp add: sre_search_None_iff)
    ultimately have "s = concat (map (\<lambda>(gap, m). gap @ m) []) @ s \<and>
        re_sub_loop r repl False s = concat (map (\<lambda>(gap, m). gap @ repl) []) @ s \<and>
        list_all (\<lambda>(gap, m). m \<in> lang r \<and> \<not> contains_match r gap) [] \<and>
        \<not> contains_match r s" by simp
    then show ?thesis unfolding replaces_every_def by blast
  next
    case (Some a)
    obtain pre rest where a: "a = (pre, rest)" by (cases a)
    from sre_search_Some [OF Some [unfolded a]] obtain m where m: "s = pre @ m @ rest" "m \<in> lang r"
      "\<forall>p q. pre = p @ q \<longrightarrow> q \<noteq> [] \<longrightarrow> rx_match r (q @ m @ rest) = []" by blast
    from m(2) assms have "m \<noteq> []" by auto
    with m(1) have len: "length rest < length s" "length pre + length rest \<noteq> length s" by auto
    have gap: "\<not> contains_match r pre"
      using no_start_no_match [OF assms m(3)] .
    from less [OF len(1)] obtain segs tail where st:
      "rest = concat (map (\<lambda>(gap, m). gap @ m) segs) @ tail"
      "re_sub_loop r repl False rest = concat (map (\<lambda>(gap, m). gap @ repl) segs) @ tail"
      "list_all (\<lambda>(gap, m). m \<in> lang r \<and> \<not> contains_match r gap) segs"
      "\<not> contains_match r tail"
      unfolding replaces_every_def by blast
    have out: "re_sub_loop r repl False s = pre @ repl @ re_sub_loop r repl False rest"
      using Some a len(2) by (subst re_sub_loop.simps) simp
    have "s = concat (map (\<lambda>(gap, m). gap @ m) ((pre, m) # segs)) @ tail \<and>
        re_sub_loop r repl False s = concat (map (\<lambda>(gap, m). gap @ repl) ((pre, m) # segs)) @ tail \<and>
        list_all (\<lambda>(gap, m). m \<in> lang r \<and> \<not> contains_match r gap) ((pre, m) # segs) \<and>
        \<not> contains_match r tail"
      using m(1,2) gap st out by simp
    then show ?thesis unfolding replaces_every_def by blast
  qed
qed

lemma py_in_iff_sublist: "py_in sub s \<longleftrightarrow> sublist sub s"
  by (induction s) (simp_all add: sublist_Cons_right)

lemma scan_brands_eq:
  "scan_brands bs text (sc, lg) =
     (sc + 15 * int (length (filter (\<lambda>b. py_in b (str_lower text)) bs)),
      lg @ map recon_line (filter (\<lambda>b. py_in b (str_lower text)) bs))"
  by (induction bs arbitrary: sc lg) auto

lemma lang_SeqI: "u \<in> lang a \<Longrightarrow> v \<in> lang b \<Longrightarrow> u @ v \<in> lang (Seq a b)"
  by auto

lemma str_lower_append: "str_lower (a @ b) = str_lower a @ str_lower b"
  by (simp add: str_lower_def)

lemma re_sub_no_match: "sre_search r False s = None \<Longrightarrow> re_sub r repl s = s"
  by (simp add: re_sub_def)

lemma lang_compile_escaped_ignorecase:
  "w \<in> lang (compile_escaped_ignorecase k) \<longleftrightarrow> list_all2 lit_ignorecase k w"
proof (induction k arbitrary: w)
  case Nil
  then show ?case by auto
next
  case (Cons p ps)
  show ?case
  proof
    assume "w \<in> lang (compile_escaped_ignorecase (p # ps))"
    then obtain c v where "w = c # v" "lit_ignorecase p c" "v \<in> lang (compile_escaped_ignorecase ps)"
      by auto
    with Cons show "list_all2 lit_ignorecase (p # ps) w" by simp
  next
    assume "list_all2 lit_ignorecase (p # ps) w"
    then obtain c v where "w = c # v" "lit_ignorecase p c" "list_all2 lit_ignorecase ps v"
      by (auto simp: list_all2_Cons1)
    with Cons have "[c] \<in> lang (Cls (lit_ignorecase p))" "v \<in> lang (compile_escaped_ignorecase ps)"
        "w = [c] @ v"
      by simp_all
    then show "w \<in> lang (compile_escaped_ignorecase (p # ps))"
      unfolding compile_escaped_ignorecase.simps by (metis lang_SeqI)
  qed
qed

lemma email_rx_nonempty: "[] \<notin> lang email_rx"
  by (simp add: email_rx_def)

lemma phone_rx_nonempty: "[] \<notin> lang phone_rx"
  by (simp add: phone_rx_def)

lemma ignorecase_nonempty: "k \<noteq> [] \<Longrightarrow> [] \<notin> lang (compile_escaped_ignorecase k)"
  by (cases k) (simp_all add: lang_compile_escaped_ignorecase)

lemma re_sub_replaces_every: "[] \<notin> lang r \<Longrightarrow> replaces_every r repl s (re_sub r repl s)"
  unfolding re_sub_def by (rule re_sub_loop_replaces_every)

section \<open>Evaluating the engine on a given text\<close>

lemmas cls_defs = in_range_def is_chr_def ascii_alnum_def email_local_def email_domain_def
  email_tail_def space_or_hyphen_def uni_isspace_def uni_isdecimal_def sre_lower_unicode_def
  extra_cases_def ascii_iscased_def lit_ignorecase_def nd_starts_def

lemmas score_defs = simulate_adversary_def re_search_def taxonomy_def str_lower_def lower_cp_def
  cps_def phone_rx_def email_rx_def phishing_line_def simswap_line_def recon_line_def
  str_upper_def upper_cp_def

lemmas harden_defs = fallback_harden_def re_sub_def taxonomy_def id_gateway_def verified_line_def
  cps_def phone_rx_def email_rx_def

text \<open>The character classes on ASCII code points, with the character constants evaluated.\<close>

lemma ascii_alnum_eval:
  "ascii_alnum c = ((97 \<le> c \<and> c \<le> 122) \<or> (65 \<le> c \<and> c \<le> 90) \<or> (48 \<le> c \<and> c \<le> 57))"
  by (simp add: ascii_alnum_def in_range_def)

lemma email_local_eval:
  "email_local c = (ascii_alnum c \<or> c = 95 \<or> c = 46 \<or> c = 43 \<or> c = 45)"
  by (simp add: email_local_def is_chr_def)

lemma email_domain_eval: "email_domain c = (ascii_alnum c \<or> c = 45)"
  by (simp add: email_domain_def is_chr_def)

lemma email_tail_eval: "email_tail c = (ascii_alnum c \<or> c = 45 \<or> c = 46)"
  by (simp add: email_tail_def is_chr_def)

lemma is_chr_eval: "is_chr CHR ''@'' c = (c = 64)" "is_chr CHR ''.'' c = (c = 46)"
  "is_chr CHR ''+'' c = (c = 43)" "is_chr CHR ''-'' c = (c = 45)"
  by (simp_all add: is_chr_def)

lemma uni_isdecimal_ascii: "c < 128 \<Longrightarrow> uni_isdecimal c = (48 \<le> c \<and> c \<le> 57)"
  by (simp add: uni_isdecimal_def)

lemma space_or_hyphen_ascii:
  "c < 128 \<Longrightarrow> space_or_hyphen c = ((9 \<le> c \<and> c \<le> 13) \<or> (28 \<le> c \<and> c \<le> 32) \<or> c = 45)"
  by (auto simp: space_or_hyphen_def uni_isspace_def is_chr_def)

lemma lit_ignorecase_ascii:
  "97 \<le> p \<Longrightarrow> p \<le> 122 \<Longrightarrow> c < 128 \<Longrightarrow>
     lit_ignorecase p c = (c = p \<or> c + 32 = p)"
  by (auto simp: lit_ignorecase_def ascii_iscased_def in_range_def sre_lower_unicode_def
      extra_cases_def)

lemmas ascii_eval = ascii_alnum_eval email_local_eval email_domain_eval email_tail_eval is_chr_eval
  uni_isdecimal_ascii space_or_hyphen_ascii lit_ignorecase_ascii

section \<open>The risk scorer\<close>

lemma simulate_adversary_eq: "simulate_adversary text = assess_spec text"
  unfolding simulate_adversary_def re_search_iff assess_spec_def fired_terms_def Let_def
  by (cases "contains_match email_rx text"; cases "contains_match phone_rx text")
     (simp_all add: scan_brands_eq py_in_iff_sublist)

text \<open>
  C1. For every text, \<open>simulate_adversary\<close> returns the assessment of the specification: the
  score is the sum of 40 (email-shaped substring), 30 (phone-shaped substring) and 15 per
  taxonomy term occurring in the lowercased text, capped at 100, and the evidence is the
  phishing line, the SIM-swap line and one RECON line per firing term in taxonomy order.
  On \<open>jane@acme.com works at Google, call 9876543210\<close> the score is 85 with the three
  lines email, phone, taxonomy.
\<close>

theorem assess_accumulates:
  "simulate_adversary text = assess_spec text \<and>
   simulate_adversary (cps ''jane@acme.com works at Google, call 9876543210'') =
     (85, [cps ''LEAK: Direct email identified. Vulnerable to Phishing.'',
           cps ''LEAK: Phone contact exposed. Vulnerable to SIM-swap.'',
           cps ''RECON: Connection to GOOGLE found.''])"
proof
  show "simulate_adversary text = assess_spec text"
    by (rule simulate_adversary_eq)
  show "simulate_adversary (cps ''jane@acme.com works at Google, call 9876543210'') =
     (85, [cps ''LEAK: Direct email identified. Vulnerable to Phishing.'',
           cps ''LEAK: Phone contact exposed. Vulnerable to SIM-swap.'',
           cps ''RECON: Connection to GOOGLE found.''])"
    by (simp add: score_defs ascii_eval)
qed

text \<open>
  C5. For every text the score of \<open>simulate_adversary\<close> is an integer between 0 and 100.
\<close>

theorem score_in_range:
  "0 \<le> fst (simulate_adversary text) \<and> fst (simulate_adversary text) \<le> 100"
  by (simp add: simulate_adversary_eq assess_spec_def)

text \<open>
  C6. A text with no email-shaped substring, no phone-shaped substring and no taxonomy
  term in its lowercased form is assessed with score 0 and no evidence; the result is an
  ordinary value.
\<close>

theorem clean_text_zero:
  assumes "\<not> contains_match email_rx text"
    and "\<not> contains_match phone_rx text"
    and "list_all (\<lambda>term. \<not> sublist term (str_lower text)) (map fst taxonomy)"
  shows "simulate_adversary text = (0, [])"
proof -
  from assms(3) have "fired_terms text = []"
    by (simp add: fired_terms_def filter_empty_conv list_all_iff)
  with assms(1,2) show ?thesis
    by (simp add: simulate_adversary_eq assess_spec_def)
qed

theorem clean_text_zero_witness:
  "\<not> contains_match email_rx (cps ''hello world'') \<and>
   \<not> contains_match phone_rx (cps ''hello world'') \<and>
   list_all (\<lambda>term. \<not> sublist term (str_lower (cps ''hello world''))) (map fst taxonomy) \<and>
   simulate_adversary (cps ''hello world'') = (0, [])"
proof -
  have h1: "\<not> contains_match email_rx (cps ''hello world'')"
    unfolding sre_search_None_iff [symmetric] by (simp add: cps_def email_rx_def ascii_eval)
  have h2: "\<not> contains_match phone_rx (cps ''hello world'')"
    unfolding sre_search_None_iff [symmetric] by (simp add: cps_def phone_rx_def ascii_eval)
  have h3: "list_all (\<lambda>term. \<not> sublist term (str_lower (cps ''hello world''))) (map fst taxonomy)"
    unfolding py_in_iff_sublist [symmetric]
    by (simp add: taxonomy_def cps_def str_lower_def lower_cp_def)
  from clean_text_zero [OF h1 h2 h3] h1 h2 h3 show ?thesis
    by blast
qed



text \<open>
  C8. On the empty string the assessment is score 0 with no evidence, and hardening
  returns the empty string: on the fallback path, and on the entity path when the
  capability reports no entity for the empty text.
\<close>

theorem empty_text:
  "simulate_adversary [] = (0, []) \<and> fallback_harden [] = [] \<and>
   nlp_harden None [] = Inr [] \<and>
   (model [] = Inr [] \<longrightarrow> nlp_harden (Some model) [] = Inr [])"
proof -
  have s: "simulate_adversary [] = (0, [])"
    by (simp add: score_defs ascii_eval)
  have e: "re_sub email_rx id_gateway [] = []"
    by (simp add: re_sub_def email_rx_def)
  have p: "re_sub phone_rx verified_line [] = []"
    by (simp add: re_sub_def phone_rx_def)
  have f: "fallback_harden [] = []"
    by (simp add: harden_defs)
  show ?thesis
    by (simp add: s f nlp_harden_def e p)
qed

theorem empty_text_witness:
  "no_entities [] = Inr [] \<and> nlp_harden (Some no_entities) [] = Inr []"
proof -
  have h: "no_entities [] = Inr []"
    by (simp add: no_entities_def)
  with empty_text [of no_entities] show ?thesis
    by blast
qed

lemma ten_digits_phone_shaped:
  assumes "length ds = 10" and "list_all uni_isdecimal ds"
  shows "contains_match phone_rx (pre @ ds @ post)"
proof -
  have "ds \<in> lang (Rep uni_isdecimal 10 10)"
    using assms by simp
  then have "[] @ ds \<in> lang phone_rx"
    unfolding phone_rx_def by (intro lang_SeqI) simp_all
  then have "ds \<in> lang phone_rx"
    by simp
  then show ?thesis
    unfolding contains_match_def by blast
qed

text \<open>
  C10. The phone pattern is not anchored: on the eleven digits \<open>12345678901\<close> the assessment
  is 30 with exactly the SIM-swap line, the match spans all eleven characters, and the
  fallback path rewrites the run to the placeholder. In general ten consecutive decimal
  digits anywhere in a text fire the phone indicator.
\<close>

theorem long_digit_run:
  "simulate_adversary (cps ''12345678901'') =
     (30, [cps ''LEAK: Phone contact exposed. Vulnerable to SIM-swap.'']) \<and>
   re_search phone_rx (cps ''12345678901'') = Some (0, 11) \<and>
   fallback_harden (cps ''12345678901'') = cps ''[VERIFIED_LINE]'' \<and>
   (length ds = 10 \<and> list_all uni_isdecimal ds \<longrightarrow>
      re_search phone_rx (pre @ ds @ post) \<noteq> None \<and>
      simswap_line \<in> set (snd (simulate_adversary (pre @ ds @ post))))"
proof (intro conjI impI)
  show "simulate_adversary (cps ''12345678901'') =
     (30, [cps ''LEAK: Phone contact exposed. Vulnerable to SIM-swap.''])"
    by (simp add: score_defs ascii_eval)
  show "re_search phone_rx (cps ''12345678901'') = Some (0, 11)"
    by (simp add: re_search_def cps_def phone_rx_def ascii_eval)
  show "fallback_harden (cps ''12345678901'') = cps ''[VERIFIED_LINE]''"
    by (simp add: harden_defs ascii_eval)
next
  assume a: "length ds = 10 \<and> list_all uni_isdecimal ds"
  then have c: "contains_match phone_rx (pre @ ds @ post)"
    by (simp add: ten_digits_phone_shaped)
  then show "re_search phone_rx (pre @ ds @ post) \<noteq> None"
    by (simp only: re_search_iff)
  from c show "simswap_line \<in> set (snd (simulate_adversary (pre @ ds @ post)))"
    by (simp add: simulate_adversary_eq assess_spec_def)
qed

theorem long_digit_run_witness:
  "length (cps ''2345678901'') = 10 \<and> list_all uni_isdecimal (cps ''2345678901'') \<and>
   re_search phone_rx (cps ''1'' @ cps ''2345678901'' @ []) \<noteq> None \<and>
   simswap_line \<in> set (snd (simulate_adversary (cps ''1'' @ cps ''2345678901'' @ [])))"
proof -
  have h: "length (cps ''2345678901'') = 10 \<and> list_all uni_isdecimal (cps ''2345678901'')"
    by (simp add: cps_def uni_isdecimal_def)
  with long_digit_run [of "cps ''2345678901''" "cps ''1''" "[]"] show ?thesis
    by blast
qed

section \<open>The capability\<close>

text \<open>
  C4, as the claim states it, fails: a capability that is present and whose call raises
  makes \<open>nlp_harden\<close> raise; the fallback result is not returned.
\<close>

theorem capability_failure_propagates:
  "failing_model (cps ''hello'') = Inl NlpError \<and>
   nlp_harden (Some failing_model) (cps ''hello'') = Inl NlpError \<and>
   nlp_harden (Some failing_model) (cps ''hello'') \<noteq> Inr (fallback_harden (cps ''hello''))"
  by (simp add: nlp_harden_def failing_model_def)

text \<open>
  C4, amended. When the capability is unavailable (\<open>nlp\<close> is \<open>None\<close>, which is also what
  a failed load of the model leaves), \<open>nlp_harden\<close> returns the result of the fallback path.
  When the capability is present, an error raised by its call reaches the caller.
\<close>

theorem fallback_when_unavailable:
  "nlp_harden None text = Inr (fallback_harden text) \<and>
   nlp_harden (load_model (Inl e)) text = Inr (fallback_harden text) \<and>
   (model text = Inl e' \<longrightarrow> nlp_harden (Some model) text = Inl e')"
  by (simp add: nlp_harden_def load_model_def)

theorem fallback_when_unavailable_witness:
  "failing_model (cps ''hello'') = Inl NlpError \<and>
   nlp_harden (Some failing_model) (cps ''hello'') = Inl NlpError \<and>
   nlp_harden (load_model (Inl NlpError)) (cps ''hello'') = Inr (fallback_harden (cps ''hello''))"
proof -
  have h: "failing_model (cps ''hello'') = Inl NlpError"
    by (simp add: failing_model_def)
  with fallback_when_unavailable [of "cps ''hello''" NlpError failing_model NlpError] show ?thesis
    by blast
qed

section \<open>The entity path\<close>

lemma redact_ents_append: "redact_ents (xs @ ys) s = redact_ents ys (redact_ents xs s)"
  by (induction xs arbitrary: s) simp_all

lemma redact_ents_rev:
  assumes "spans_ok pos es (length t)" and "pos \<le> length t"
  shows "redact_ents (rev es) t = take pos t @ redact_at pos es (drop pos t)"
  using assms
proof (induction es arbitrary: pos)
  case Nil
  then show ?case by simp
next
  case (Cons e es)
  let ?a = "start_char e" and ?b = "end_char e"
  from Cons.prems have ord: "pos \<le> ?a" "?a < ?b" "?b \<le> length t" and ok: "spans_ok ?b es (length t)"
    by simp_all
  let ?X = "redact_ents (rev es) t"
  have X: "?X = take ?b t @ redact_at ?b es (drop ?b t)"
    using Cons.IH [OF ok ord(3)] .
  have pre: "take ?a ?X = take ?a t"
    using ord by (simp add: X min_def)
  have post: "drop ?b ?X = redact_at ?b es (drop ?b t)"
    using ord by (simp add: X)
  have seg: "take (?b - ?a) (drop (?a - pos) (drop pos t)) = take (?b - ?a) (drop ?a t)"
    using ord by simp
  have split1: "take pos t @ take (?a - pos) (drop pos t) = take ?a t"
    using ord by (metis le_add_diff_inverse take_add)
  have split2: "take ?a t @ take (?b - ?a) (drop ?a t) = take ?b t"
    using ord by (metis le_add_diff_inverse less_imp_le_nat take_add)
  have dd: "drop (?b - pos) (drop pos t) = drop ?b t"
    using ord by simp
  have "redact_ents (rev (e # es)) t = redact_ent e ?X"
    by (simp add: redact_ents_append)
  also have "\<dots> = take ?a t @ span_out e (take (?b - ?a) (drop ?a t)) @ redact_at ?b es (drop ?b t)"
  proof (cases "label e \<in> set hidden_labels")
    case True
    then show ?thesis
      by (simp add: redact_ent_def span_out_def pre post)
  next
    case False
    then have "redact_ent e ?X = take ?b t @ redact_at ?b es (drop ?b t)"
      by (simp add: redact_ent_def X)
    also have "\<dots> = take ?a t @ take (?b - ?a) (drop ?a t) @ redact_at ?b es (drop ?b t)"
      using split2 by (metis append.assoc)
    finally show ?thesis
      using False by (simp add: span_out_def)
  qed
  also have "\<dots> = take pos t @ redact_at pos (e # es) (drop pos t)"
    unfolding redact_at.simps seg dd using split1 by (metis append.assoc)
  finally show ?case .
qed

lemma spans_ok_starts: "spans_ok pos es n \<Longrightarrow> sorted (map start_char es) \<and> (\<forall>e \<in> set es. pos \<le> start_char e)"
proof (induction es arbitrary: pos)
  case Nil
  then show ?case by simp
next
  case (Cons e es)
  then have "spans_ok (end_char e) es n" "pos \<le> start_char e" "start_char e < end_char e"
    by simp_all
  with Cons.IH [of "end_char e"] show ?case
    by fastforce
qed


lemma spans_ok_sorted: "spans_ok pos es n \<Longrightarrow> sort_key start_char es = es"
  using spans_ok_starts [of pos es n] by (simp add: sort_key_id_if_sorted)

text \<open>
  C3, amended. For entity spans in document order that do not overlap and lie inside the
  text, the loop over the reversed sequence is the loop over the spans sorted by start
  position descending, and its result is the text with every PERSON, ORG, GPE, FAC or LOC
  span replaced by its placeholder at its original offsets, the other spans left as they
  are; the email and phone substitutions follow.
\<close>

theorem entity_path_right_to_left:
  assumes "spans_ok 0 ents (length text)"
  shows "rev ents = rev (sort_key start_char ents) \<and>
         redact_ents (rev ents) text = redact_at 0 ents text \<and>
         redact_ents (rev ents) text = redact_sorted_spec ents text \<and>
         (model text = Inr ents \<longrightarrow>
            nlp_harden (Some model) text =
              Inr (re_sub phone_rx verified_line (re_sub email_rx id_gateway (redact_at 0 ents text))))"
proof -
  have srt: "sort_key start_char ents = ents"
    using assms by (rule spans_ok_sorted)
  have sim: "redact_ents (rev ents) text = redact_at 0 ents text"
    using redact_ents_rev [OF assms] by simp
  show ?thesis
    by (simp add: srt sim redact_sorted_spec_def nlp_harden_def)
qed

theorem entity_path_right_to_left_witness:
  "spans_ok 0 (rev unsorted_ents) (length (cps ''Alice met Bob'')) \<and>
   sorted_model (cps ''Alice met Bob'') = Inr (rev unsorted_ents) \<and>
   redact_ents (rev (rev unsorted_ents)) (cps ''Alice met Bob'') =
     redact_at 0 (rev unsorted_ents) (cps ''Alice met Bob'') \<and>
   redact_at 0 (rev unsorted_ents) (cps ''Alice met Bob'') =
     cps ''[HIDDEN_PERSON] met [HIDDEN_PERSON]'' \<and>
   nlp_harden (Some sorted_model) (cps ''Alice met Bob'') =
     Inr (re_sub phone_rx verified_line (re_sub email_rx id_gateway
            (redact_at 0 (rev unsorted_ents) (cps ''Alice met Bob''))))"
proof -
  have h: "spans_ok 0 (rev unsorted_ents) (length (cps ''Alice met Bob''))"
    by (simp add: unsorted_ents_def cps_def)
  have m: "sorted_model (cps ''Alice met Bob'') = Inr (rev unsorted_ents)"
    by (simp add: sorted_model_def)
  have v: "redact_at 0 (rev unsorted_ents) (cps ''Alice met Bob'') =
     cps ''[HIDDEN_PERSON] met [HIDDEN_PERSON]''"
    by (simp add: unsorted_ents_def cps_def span_out_def hidden_labels_def)
  from entity_path_right_to_left [OF h, of sorted_model] h m v show ?thesis
    by blast
qed

text \<open>
  C3, as the claim states it, fails: the spans are taken in the reverse of the order in
  which the capability returns them and are not sorted. For two spans returned from right
  to left the second replacement is made at offsets the first one has shifted, and
  \<open>Bob\<close> stays in the text.
\<close>

theorem unsorted_spans_corrupt:
  "unsorted_model (cps ''Alice met Bob'') = Inr unsorted_ents \<and>
   nlp_harden (Some unsorted_model) (cps ''Alice met Bob'') =
     Inr (cps ''[HIDDEN_PE[HIDDEN_PERSON]N] met Bob'') \<and>
   redact_ents (rev unsorted_ents) (cps ''Alice met Bob'') =
     cps ''[HIDDEN_PE[HIDDEN_PERSON]N] met Bob'' \<and>
   redact_sorted_spec unsorted_ents (cps ''Alice met Bob'') =
     cps ''[HIDDEN_PERSON] met [HIDDEN_PERSON]''"
proof (intro conjI)
  show "unsorted_model (cps ''Alice met Bob'') = Inr unsorted_ents"
    by (simp add: unsorted_model_def)
  show r: "redact_ents (rev unsorted_ents) (cps ''Alice met Bob'') =
     cps ''[HIDDEN_PE[HIDDEN_PERSON]N] met Bob''"
    by (simp add: unsorted_ents_def cps_def redact_ent_def hidden_labels_def)
  have e: "re_sub email_rx id_gateway (cps ''[HIDDEN_PE[HIDDEN_PERSON]N] met Bob'') =
     cps ''[HIDDEN_PE[HIDDEN_PERSON]N] met Bob''"
    by (simp add: re_sub_def email_rx_def cps_def ascii_eval)
  have p: "re_sub phone_rx verified_line (cps ''[HIDDEN_PE[HIDDEN_PERSON]N] met Bob'') =
     cps ''[HIDDEN_PE[HIDDEN_PERSON]N] met Bob''"
    by (simp add: re_sub_def phone_rx_def cps_def ascii_eval)
  show "nlp_harden (Some unsorted_model) (cps ''Alice met Bob'') =
     Inr (cps ''[HIDDEN_PE[HIDDEN_PERSON]N] met Bob'')"
    by (simp add: nlp_harden_def unsorted_model_def r e p)
  show "redact_sorted_spec unsorted_ents (cps ''Alice met Bob'') =
     cps ''[HIDDEN_PERSON] met [HIDDEN_PERSON]''"
    by (simp add: redact_sorted_spec_def unsorted_ents_def cps_def redact_ent_def hidden_labels_def)
qed

section \<open>Clean text and the fallback path\<close>

lemma lit_ignorecase_lower:
  assumes "in_range CHR ''a'' CHR ''z'' p" and "c \<noteq> 0x130" "c \<noteq> 0x131" "c \<noteq> 0x17F"
    and "lit_ignorecase p c"
  shows "lower_cp c = [p]"
  using assms
  by (auto simp: lit_ignorecase_def ascii_iscased_def in_range_def sre_lower_unicode_def
      extra_cases_def lower_cp_def split: if_splits)

lemma ignorecase_match_lower:
  assumes "list_all2 lit_ignorecase k w" and "list_all (in_range CHR ''a'' CHR ''z'') k"
    and "no_special_casing w"
  shows "str_lower w = k"
  using assms
proof (induction k w rule: list_all2_induct)
  case Nil
  then show ?case by (simp add: str_lower_def)
next
  case (Cons p ps c cs)
  then have "lower_cp c = [p]" "str_lower cs = ps"
    by (simp_all add: no_special_casing_def lit_ignorecase_lower)
  then show ?case
    by (simp add: str_lower_def)
qed

lemma no_special_casing_append:
  "no_special_casing (a @ b) \<longleftrightarrow> no_special_casing a \<and> no_special_casing b"
  by (simp add: no_special_casing_def)

lemma ignorecase_contained_lower:
  assumes "contains_match (compile_escaped_ignorecase k) text"
    and "list_all (in_range CHR ''a'' CHR ''z'') k" and "no_special_casing text"
  shows "sublist k (str_lower text)"
proof -
  from assms(1) obtain pre w post where t: "text = pre @ w @ post"
    and "w \<in> lang (compile_escaped_ignorecase k)"
    unfolding contains_match_def by blast
  then have "list_all2 lit_ignorecase k w"
    by (simp add: lang_compile_escaped_ignorecase)
  moreover from assms(3) t have "no_special_casing w"
    by (simp add: no_special_casing_append)
  ultimately have "str_lower w = k"
    using assms(2) by (simp add: ignorecase_match_lower)
  with t have "str_lower text = str_lower pre @ k @ str_lower post"
    by (simp add: str_lower_append)
  then show ?thesis
    unfolding sublist_def by blast
qed

lemma taxonomy_keys_ascii_lower:
  "list_all (\<lambda>(k, v). list_all (in_range CHR ''a'' CHR ''z'') k) taxonomy"
  by (simp add: taxonomy_def cps_def in_range_def)

lemma sub_terms_no_match:
  "list_all (\<lambda>(k, v). \<not> contains_match (compile_escaped_ignorecase k) s) items \<Longrightarrow>
     sub_terms items s = s"
  by (induction items) (auto simp: re_sub_no_match sre_search_None_iff)

lemma score_zero_clean:
  assumes "fst (simulate_adversary text) = 0"
  shows "\<not> contains_match email_rx text \<and> \<not> contains_match phone_rx text \<and> fired_terms text = []"
proof -
  let ?e = "if contains_match email_rx text then 40 else (0::int)"
  let ?p = "if contains_match phone_rx text then 30 else (0::int)"
  let ?t = "15 * int (length (fired_terms text))"
  from assms have "min (?e + ?p + ?t) 100 = 0"
    by (simp add: simulate_adversary_eq assess_spec_def)
  moreover have "0 \<le> ?e" "0 \<le> ?p" "0 \<le> ?t" by simp_all
  ultimately have "?e = 0" "?p = 0" "?t = 0"
    by (auto simp: min_def split: if_splits)
  then show ?thesis
    by (auto split: if_splits)
qed

lemma score_zero_unchanged:
  assumes "no_special_casing text" and "fst (simulate_adversary text) = 0"
  shows "fallback_harden text = text"
proof -
  from score_zero_clean [OF assms(2)]
  have e: "\<not> contains_match email_rx text" and p: "\<not> contains_match phone_rx text"
    and f: "fired_terms text = []"
    by simp_all
  have "\<not> contains_match (compile_escaped_ignorecase k) text" if "(k, v) \<in> set taxonomy" for k v
  proof
    assume c: "contains_match (compile_escaped_ignorecase k) text"
    from that taxonomy_keys_ascii_lower have "list_all (in_range CHR ''a'' CHR ''z'') k"
      by (auto simp: list_all_iff)
    from ignorecase_contained_lower [OF c this assms(1)] have "sublist k (str_lower text)" .
    moreover from that have "k \<in> set (map fst taxonomy)"
      by force
    ultimately have "k \<in> set (fired_terms text)"
      by (simp add: fired_terms_def)
    with f show False by simp
  qed
  then have "list_all (\<lambda>(k, v). \<not> contains_match (compile_escaped_ignorecase k) text) taxonomy"
    by (auto simp: list_all_iff)
  then have "sub_terms taxonomy text = text"
    by (rule sub_terms_no_match)
  moreover have "re_sub email_rx id_gateway text = text"
    using e by (simp add: re_sub_no_match sre_search_None_iff)
  moreover have "re_sub phone_rx verified_line text = text"
    using p by (simp add: re_sub_no_match sre_search_None_iff)
  ultimately show ?thesis
    by (simp add: fallback_harden_def)
qed

lemma segs_measure:
  fixes f :: "pystr \<Rightarrow> nat"
  assumes add: "\<And>a b. f (a @ b) = f a + f b"
    and segs: "list_all (\<lambda>(gap, m). m \<in> lang r \<and> Q gap) segs"
  shows "((\<forall>w \<in> lang r. f w \<le> f repl) \<longrightarrow>
           f (concat (map (\<lambda>(gap, m). gap @ m) segs)) \<le> f (concat (map (\<lambda>(gap, m). gap @ repl) segs))) \<and>
         ((\<forall>w \<in> lang r. f w < f repl) \<longrightarrow> segs \<noteq> [] \<longrightarrow>
           f (concat (map (\<lambda>(gap, m). gap @ m) segs)) < f (concat (map (\<lambda>(gap, m). gap @ repl) segs))) \<and>
         ((\<forall>w \<in> lang r. f w = f repl) \<longrightarrow>
           f (concat (map (\<lambda>(gap, m). gap @ m) segs)) = f (concat (map (\<lambda>(gap, m). gap @ repl) segs)))"
  using segs
proof (induction segs)
  case Nil
  then show ?case by simp
next
  case (Cons seg segs)
  obtain gap m where seg: "seg = (gap, m)" by (cases seg)
  with Cons.prems have m: "m \<in> lang r" and rest: "list_all (\<lambda>(gap, m). m \<in> lang r \<and> Q gap) segs"
    by simp_all
  let ?S = "f (concat (map (\<lambda>(gap, m). gap @ m) segs))"
  let ?O = "f (concat (map (\<lambda>(gap, m). gap @ repl) segs))"
  have S: "f (concat (map (\<lambda>(gap, m). gap @ m) (seg # segs))) = f gap + f m + ?S"
    by (simp add: seg add)
  have O: "f (concat (map (\<lambda>(gap, m). gap @ repl) (seg # segs))) = f gap + f repl + ?O"
    by (simp add: seg add)
  from Cons.IH [OF rest] have ih1: "(\<forall>w \<in> lang r. f w \<le> f repl) \<longrightarrow> ?S \<le> ?O"
    and ih3: "(\<forall>w \<in> lang r. f w = f repl) \<longrightarrow> ?S = ?O"
    by blast+
  have a: "(\<forall>w \<in> lang r. f w \<le> f repl) \<longrightarrow> f gap + f m + ?S \<le> f gap + f repl + ?O"
    using ih1 m by (auto intro: add_mono)
  have b: "(\<forall>w \<in> lang r. f w < f repl) \<longrightarrow> f gap + f m + ?S < f gap + f repl + ?O"
  proof
    assume lt: "\<forall>w \<in> lang r. f w < f repl"
    then have "\<forall>w \<in> lang r. f w \<le> f repl" by (auto intro: less_imp_le)
    with ih1 have "?S \<le> ?O" by blast
    moreover from lt m have "f m < f repl" by blast
    ultimately show "f gap + f m + ?S < f gap + f repl + ?O" by linarith
  qed
  have c: "(\<forall>w \<in> lang r. f w = f repl) \<longrightarrow> f gap + f m + ?S = f gap + f repl + ?O"
    using ih3 m by auto
  show ?case
    unfolding S O using a b c by blast
qed

lemma replaces_every_measure:
  fixes f :: "pystr \<Rightarrow> nat"
  assumes add: "\<And>a b. f (a @ b) = f a + f b"
    and re: "replaces_every r repl s out"
  shows "((\<forall>w \<in> lang r. f w \<le> f repl) \<longrightarrow> f s \<le> f out) \<and>
         ((\<forall>w \<in> lang r. f w < f repl) \<longrightarrow> contains_match r s \<longrightarrow> f s < f out) \<and>
         ((\<forall>w \<in> lang r. f w = f repl) \<longrightarrow> f s = f out)"
proof -
  from re obtain segs tail where
    s: "s = concat (map (\<lambda>(gap, m). gap @ m) segs) @ tail"
    and out: "out = concat (map (\<lambda>(gap, m). gap @ repl) segs) @ tail"
    and segs: "list_all (\<lambda>(gap, m). m \<in> lang r \<and> \<not> contains_match r gap) segs"
    and tail: "\<not> contains_match r tail"
    unfolding replaces_every_def by blast
  have ne: "segs \<noteq> []" if "contains_match r s"
    using that s tail by auto
  from segs_measure [of f r "\<lambda>gap. \<not> contains_match r gap" segs repl, OF add segs]
  show ?thesis
    unfolding s out add using ne [unfolded s] by auto
qed


lemma lang_admits: "w \<in> lang r \<Longrightarrow> c \<in> set w \<Longrightarrow> rx_admits r c"
proof (induction r arbitrary: w)
  case (Seq a b)
  then obtain u v where "w = u @ v" "u \<in> lang a" "v \<in> lang b"
    by auto
  with Seq show ?case
    by auto
qed (auto simp: list_all_iff)

lemma brackets_append: "brackets (a @ b) = brackets a + brackets b"
  by (simp add: brackets_def)

lemma no_bracket: "\<not> rx_admits r 0x5B \<Longrightarrow> w \<in> lang r \<Longrightarrow> brackets w = 0"
  using lang_admits [of w r "0x5B"] by (auto simp: brackets_def count_list_0_iff)

lemma email_rx_no_bracket: "\<not> rx_admits email_rx 0x5B"
  by (simp add: email_rx_def ascii_eval)

lemma phone_rx_no_bracket: "\<not> rx_admits phone_rx 0x5B"
  by (simp add: phone_rx_def ascii_eval)

lemma ignorecase_no_bracket:
  "list_all (in_range CHR ''a'' CHR ''z'') k \<Longrightarrow> \<not> rx_admits (compile_escaped_ignorecase k) 0x5B"
  by (induction k) (auto simp: in_range_def lit_ignorecase_ascii)


lemma lower_cp_sre: "c \<noteq> 0x130 \<Longrightarrow> lower_cp c = [sre_lower_unicode c]"
  by (simp add: lower_cp_def sre_lower_unicode_def)

lemma lit_ignorecase_sre:
  "in_range CHR ''a'' CHR ''z'' p \<Longrightarrow> sre_lower_unicode c = p \<Longrightarrow> lit_ignorecase p c"
  by (auto simp: lit_ignorecase_def ascii_iscased_def in_range_def sre_lower_unicode_def
      split: if_splits)

lemma lower_prefix_matches:
  "list_all (in_range CHR ''a'' CHR ''z'') k \<Longrightarrow> prefix k (str_lower s) \<Longrightarrow>
     \<exists>w t. s = w @ t \<and> list_all2 lit_ignorecase k w"
proof (induction k arbitrary: s)
  case Nil
  then show ?case by simp
next
  case (Cons p ps)
  then have p: "in_range CHR ''a'' CHR ''z'' p" and ps: "list_all (in_range CHR ''a'' CHR ''z'') ps"
    by simp_all
  from Cons.prems(2) obtain c cs where s: "s = c # cs"
    by (cases s) (simp_all add: str_lower_def)
  show ?case
  proof (cases "c = 0x130")
    case True
    with Cons.prems(2) s have "prefix (p # ps) (0x69 # 0x307 # str_lower cs)"
      by (simp add: str_lower_def lower_cp_def)
    then have p69: "p = 0x69" and "prefix ps (0x307 # str_lower cs)"
      by simp_all
    then have "ps = [] \<or> (\<exists>ps'. ps = 0x307 # ps')"
      by (cases ps) simp_all
    moreover have "ps \<noteq> 0x307 # ps'" for ps'
      using ps by (auto simp: in_range_def)
    ultimately have "ps = []" by blast
    moreover have "lit_ignorecase p c"
      using p p69 True by (intro lit_ignorecase_sre) (simp_all add: sre_lower_unicode_def)
    ultimately have "s = [c] @ cs \<and> list_all2 lit_ignorecase (p # ps) [c]"
      using s by simp
    then show ?thesis by blast
  next
    case False
    with Cons.prems(2) s have "prefix (p # ps) (sre_lower_unicode c # str_lower cs)"
      by (simp add: str_lower_def lower_cp_sre)
    then have "sre_lower_unicode c = p" and "prefix ps (str_lower cs)"
      by simp_all
    with Cons.IH [OF ps, of cs] p obtain w t where "cs = w @ t" "list_all2 lit_ignorecase ps w"
      "lit_ignorecase p c"
      by (auto intro: lit_ignorecase_sre)
    with s have "s = (c # w) @ t \<and> list_all2 lit_ignorecase (p # ps) (c # w)"
      by simp
    then show ?thesis by blast
  qed
qed

lemma lower_sublist_aligned:
  assumes "list_all (in_range CHR ''a'' CHR ''z'') k" and "k \<noteq> []"
  shows "sublist k (str_lower s) \<Longrightarrow> \<exists>a b. s = a @ b \<and> prefix k (str_lower b)"
proof (induction s)
  case Nil
  with assms(2) show ?case by (simp add: str_lower_def)
next
  case (Cons c cs)
  from assms obtain p ps where k: "k = p # ps" and p: "p \<noteq> 0x307"
    by (cases k) (auto simp: in_range_def)
  have "prefix k (str_lower (c # cs)) \<or> sublist k (str_lower cs)"
  proof (cases "c = 0x130")
    case True
    with Cons.prems have "sublist k (0x69 # 0x307 # str_lower cs)"
      by (simp add: str_lower_def lower_cp_def)
    then have "prefix k (0x69 # 0x307 # str_lower cs) \<or> prefix k (0x307 # str_lower cs)
        \<or> sublist k (str_lower cs)"
      by (simp add: sublist_Cons_right)
    moreover have "\<not> prefix k (0x307 # str_lower cs)"
      using k p by simp
    ultimately show ?thesis
      using True by (simp add: str_lower_def lower_cp_def)
  next
    case False
    with Cons.prems have "sublist k (sre_lower_unicode c # str_lower cs)"
      by (simp add: str_lower_def lower_cp_sre)
    then show ?thesis
      using False by (simp add: sublist_Cons_right str_lower_def lower_cp_sre)
  qed
  then show ?case
  proof
    assume "prefix k (str_lower (c # cs))"
    then have "c # cs = [] @ (c # cs) \<and> prefix k (str_lower (c # cs))" by simp
    then show ?thesis by blast
  next
    assume "sublist k (str_lower cs)"
    from Cons.IH [OF this] obtain a b where "cs = a @ b" "prefix k (str_lower b)" by blast
    then have "c # cs = (c # a) @ b \<and> prefix k (str_lower b)" by simp
    then show ?thesis by blast
  qed
qed

lemma fired_term_matches:
  assumes "list_all (in_range CHR ''a'' CHR ''z'') k" and "k \<noteq> []"
    and "sublist k (str_lower text)"
  shows "contains_match (compile_escaped_ignorecase k) text"
proof -
  from lower_sublist_aligned [OF assms] obtain a b where ab: "text = a @ b" "prefix k (str_lower b)"
    by blast
  from lower_prefix_matches [OF assms(1) ab(2)] obtain w t where "b = w @ t"
    "list_all2 lit_ignorecase k w"
    by blast
  with ab(1) have "text = a @ w @ t" "w \<in> lang (compile_escaped_ignorecase k)"
    by (simp_all add: lang_compile_escaped_ignorecase)
  then show ?thesis
    unfolding contains_match_def by blast
qed


lemma taxonomy_shape:
  "list_all (\<lambda>(k, v). k \<noteq> [] \<and> list_all (in_range CHR ''a'' CHR ''z'') k \<and>
                      length k < length v \<and> brackets v = 0) taxonomy"
  by (simp add: taxonomy_def cps_def in_range_def brackets_def)

lemma sub_terms_brackets:
  "list_all (\<lambda>(k, v). k \<noteq> [] \<and> list_all (in_range CHR ''a'' CHR ''z'') k \<and>
                      length k < length v \<and> brackets v = 0) items \<Longrightarrow>
     brackets (sub_terms items s) = brackets s"
proof (induction items arbitrary: s)
  case Nil
  then show ?case by simp
next
  case (Cons kv items)
  obtain k v where kv: "kv = (k, v)" by (cases kv)
  let ?r = "compile_escaped_ignorecase k"
  from Cons.prems kv have k: "k \<noteq> []" "list_all (in_range CHR ''a'' CHR ''z'') k" "brackets v = 0"
    and rest: "list_all (\<lambda>(k, v). k \<noteq> [] \<and> list_all (in_range CHR ''a'' CHR ''z'') k \<and>
                      length k < length v \<and> brackets v = 0) items"
    by simp_all
  have "\<forall>w \<in> lang ?r. brackets w = brackets v"
    using no_bracket [OF ignorecase_no_bracket [OF k(2)]] k(3) by simp
  moreover have "replaces_every ?r v s (re_sub ?r v s)"
    using k(1) by (simp add: re_sub_replaces_every ignorecase_nonempty)
  ultimately have "brackets (re_sub ?r v s) = brackets s"
    using replaces_every_measure [of brackets "?r" v s "re_sub ?r v s"]
    by (simp add: brackets_append)
  with Cons.IH [OF rest, of "re_sub ?r v s"] show ?case
    by (simp add: kv)
qed

lemma sub_terms_length:
  "list_all (\<lambda>(k, v). k \<noteq> [] \<and> list_all (in_range CHR ''a'' CHR ''z'') k \<and>
                      length k < length v \<and> brackets v = 0) items \<Longrightarrow>
     length s \<le> length (sub_terms items s) \<and>
     (list_ex (\<lambda>(k, v). contains_match (compile_escaped_ignorecase k) s) items \<longrightarrow>
        length s < length (sub_terms items s))"
proof (induction items arbitrary: s)
  case Nil
  then show ?case by simp
next
  case (Cons kv items)
  obtain k v where kv: "kv = (k, v)" by (cases kv)
  let ?r = "compile_escaped_ignorecase k"
  let ?s' = "re_sub ?r v s"
  from Cons.prems kv have k: "k \<noteq> []" "length k < length v"
    and rest: "list_all (\<lambda>(k, v). k \<noteq> [] \<and> list_all (in_range CHR ''a'' CHR ''z'') k \<and>
                      length k < length v \<and> brackets v = 0) items"
    by simp_all
  have "\<forall>w \<in> lang ?r. length w < length v"
    using k(2) by (auto simp: lang_compile_escaped_ignorecase dest!: list_all2_lengthD)
  moreover have "replaces_every ?r v s ?s'"
    using k(1) by (simp add: re_sub_replaces_every ignorecase_nonempty)
  ultimately have step: "length s \<le> length ?s'" "contains_match ?r s \<longrightarrow> length s < length ?s'"
    using replaces_every_measure [of length "?r" v s "?s'"]
    by (auto intro: less_imp_le)
  from Cons.IH [OF rest, of ?s'] have ih: "length ?s' \<le> length (sub_terms items ?s')"
    "list_ex (\<lambda>(k, v). contains_match (compile_escaped_ignorecase k) ?s') items \<longrightarrow>
       length ?s' < length (sub_terms items ?s')"
    by simp_all
  have "length s < length (sub_terms (kv # items) s)"
    if ex: "list_ex (\<lambda>(k, v). contains_match (compile_escaped_ignorecase k) s) (kv # items)"
  proof (cases "contains_match ?r s")
    case True
    with step(2) ih(1) show ?thesis by (simp add: kv)
  next
    case False
    then have "?s' = s"
      by (simp add: re_sub_no_match sre_search_None_iff)
    moreover from ex False have "list_ex (\<lambda>(k, v). contains_match (compile_escaped_ignorecase k) s) items"
      by (simp add: kv)
    ultimately show ?thesis
      using ih(2) by (simp add: kv)
  qed
  moreover have "length s \<le> length (sub_terms (kv # items) s)"
    using step(1) ih(1) by (simp add: kv)
  ultimately show ?case by blast
qed

lemma unchanged_scores_zero:
  assumes "fallback_harden text = text"
  shows "fst (simulate_adversary text) = 0"
proof -
  let ?s1 = "re_sub email_rx id_gateway text"
  let ?s2 = "re_sub phone_rx verified_line ?s1"
  have out: "fallback_harden text = sub_terms taxonomy ?s2"
    by (simp add: fallback_harden_def)
  have b_out: "brackets (fallback_harden text) = brackets ?s2"
    unfolding out using taxonomy_shape by (rule sub_terms_brackets)
  have e: "brackets text \<le> brackets ?s1"
    "contains_match email_rx text \<longrightarrow> brackets text < brackets ?s1"
    using replaces_every_measure [of brackets email_rx id_gateway "text" "?s1"]
      re_sub_replaces_every [OF email_rx_nonempty, of id_gateway "text"]
      no_bracket [OF email_rx_no_bracket]
    by (simp_all add: brackets_append) (simp_all add: brackets_def id_gateway_def cps_def)
  have p: "brackets ?s1 \<le> brackets ?s2"
    "contains_match phone_rx ?s1 \<longrightarrow> brackets ?s1 < brackets ?s2"
    using replaces_every_measure [of brackets phone_rx verified_line "?s1" "?s2"]
      re_sub_replaces_every [OF phone_rx_nonempty, of verified_line "?s1"]
      no_bracket [OF phone_rx_no_bracket]
    by (simp_all add: brackets_append) (simp_all add: brackets_def verified_line_def cps_def)
  have ne: "\<not> contains_match email_rx text"
  proof
    assume "contains_match email_rx text"
    with e p b_out have "brackets text < brackets (fallback_harden text)" by simp
    with assms show False by simp
  qed
  then have s1: "?s1 = text"
    by (simp add: re_sub_no_match sre_search_None_iff)
  have np: "\<not> contains_match phone_rx text"
  proof
    assume "contains_match phone_rx text"
    with p(2) s1 b_out have "brackets text < brackets (fallback_harden text)" by simp
    with assms show False by simp
  qed
  then have s2: "?s2 = text"
    by (simp add: s1 re_sub_no_match sre_search_None_iff)
  have nt: "fired_terms text = []"
  proof (rule ccontr)
    assume "fired_terms text \<noteq> []"
    then obtain k where "k \<in> set (fired_terms text)"
      by (cases "fired_terms text") auto
    then obtain v where kv: "(k, v) \<in> set taxonomy" and sub: "sublist k (str_lower text)"
      by (auto simp: fired_terms_def)
    from kv taxonomy_shape have "list_all (in_range CHR ''a'' CHR ''z'') k" "k \<noteq> []"
      by (auto simp: list_all_iff)
    from fired_term_matches [OF this sub] kv
    have "list_ex (\<lambda>(k, v). contains_match (compile_escaped_ignorecase k) text) taxonomy"
      by (auto simp: list_ex_iff)
    with sub_terms_length [OF taxonomy_shape, of "text"]
    have "length text < length (sub_terms taxonomy text)" by blast
    with out s2 assms show False by simp
  qed
  from ne np nt show ?thesis
    by (simp add: simulate_adversary_eq assess_spec_def)
qed

text \<open>
  C9, amended. For a text without the code points U+0130, U+0131 and U+017F, if the
  assessment has score 0 then the fallback path returns the text unchanged. Conversely,
  for every text, if the fallback path returns the text unchanged then the assessment has
  score 0.
\<close>

theorem clean_text_unchanged:
  "(no_special_casing text \<and> fst (simulate_adversary text) = 0 \<longrightarrow> fallback_harden text = text) \<and>
   (fallback_harden text = text \<longrightarrow> fst (simulate_adversary text) = 0)"
  using score_zero_unchanged [of "text"] unchanged_scores_zero [of "text"] by blast

theorem clean_text_unchanged_witness:
  "no_special_casing (cps ''hello world'') \<and> fst (simulate_adversary (cps ''hello world'')) = 0 \<and>
   fallback_harden (cps ''hello world'') = cps ''hello world''"
proof -
  have h1: "no_special_casing (cps ''hello world'')"
    by (simp add: no_special_casing_def cps_def)
  have h2: "fst (simulate_adversary (cps ''hello world'')) = 0"
    by (simp add: score_defs ascii_eval)
  from clean_text_unchanged [of "cps ''hello world''"] h1 h2 show ?thesis
    by blast
qed

text \<open>
  C9, as the claim states it, fails: the text of a long s followed by \<open>ql\<close> is assessed
  with score 0 and no evidence, and the fallback path rewrites it to the label of \<open>sql\<close>.
\<close>

theorem long_s_rewritten_unscored:
  "simulate_adversary long_s_ql = (0, []) \<and>
   fallback_harden long_s_ql = cps ''Structured Database Systems'' \<and>
   fallback_harden long_s_ql \<noteq> long_s_ql"
proof -
  have s: "simulate_adversary long_s_ql = (0, [])"
    by (simp add: long_s_ql_def score_defs cls_defs)
  have f: "fallback_harden long_s_ql = cps ''Structured Database Systems''"
    by (simp add: long_s_ql_def harden_defs cls_defs)
  have "cps ''Structured Database Systems'' \<noteq> long_s_ql"
    by (simp add: long_s_ql_def cps_def)
  with s f show ?thesis by simp
qed

section \<open>The fallback path\<close>

lemma sub_terms_replaced:
  "list_all (\<lambda>(k, v). k \<noteq> []) items \<Longrightarrow> terms_replaced items s (sub_terms items s)"
proof (induction items arbitrary: s)
  case Nil
  then show ?case by simp
next
  case (Cons kv items)
  obtain k v where kv: "kv = (k, v)" by (cases kv)
  with Cons.prems have "k \<noteq> []" "list_all (\<lambda>(k, v). k \<noteq> []) items"
    by simp_all
  then have "replaces_every (compile_escaped_ignorecase k) v s (re_sub (compile_escaped_ignorecase k) v s)"
    and "terms_replaced items (re_sub (compile_escaped_ignorecase k) v s)
           (sub_terms items (re_sub (compile_escaped_ignorecase k) v s))"
    using Cons.IH by (simp_all add: re_sub_replaces_every ignorecase_nonempty)
  then show ?case
    unfolding kv by (simp only: terms_replaced.simps sub_terms.simps) blast
qed

lemma taxonomy_keys_nonempty: "list_all (\<lambda>(k, v). k \<noteq> []) taxonomy"
  by (simp add: taxonomy_def cps_def)

lemma fallback_harden_spec: "fallback_spec text (fallback_harden text)"
proof -
  let ?s1 = "re_sub email_rx id_gateway text"
  let ?s2 = "re_sub phone_rx verified_line ?s1"
  have "replaces_every email_rx id_gateway text ?s1"
    by (simp add: re_sub_replaces_every email_rx_nonempty)
  moreover have "replaces_every phone_rx verified_line ?s1 ?s2"
    by (simp add: re_sub_replaces_every phone_rx_nonempty)
  moreover have "terms_replaced taxonomy ?s2 (fallback_harden text)"
    using sub_terms_replaced [OF taxonomy_keys_nonempty, of ?s2]
    by (simp add: fallback_harden_def)
  ultimately show ?thesis
    unfolding fallback_spec_def by blast
qed

text \<open>
  C2. The fallback path replaces every email-shaped substring by \<open>[ID_GATEWAY]\<close>, then
  every phone-shaped substring by \<open>[VERIFIED_LINE]\<close>, then, for each taxonomy term in
  taxonomy order, every occurrence of the term in any letter case by its label: what is
  replaced at a stage matches the pattern of the stage, and what is left between the
  replacements contains no match of it. \<open>I am a Manager at Google\<close> becomes
  \<open>I am a Strategic Director at a Tier-1 Tech Corporation\<close>.
\<close>

theorem fallback_stages:
  "fallback_spec text (fallback_harden text) \<and>
   fallback_harden (cps ''I am a Manager at Google'') =
     cps ''I am a Strategic Director at a Tier-1 Tech Corporation'' \<and>
   fallback_harden (cps ''Contact me at jane@acme.com'') = cps ''Contact me at [ID_GATEWAY]'' \<and>
   fallback_harden (cps ''Call 9876543210 now'') = cps ''Call [VERIFIED_LINE] now''"
proof (intro conjI)
  show "fallback_spec text (fallback_harden text)"
    by (rule fallback_harden_spec)
  show "fallback_harden (cps ''I am a Manager at Google'') =
     cps ''I am a Strategic Director at a Tier-1 Tech Corporation''"
    by (simp add: harden_defs ascii_eval)
  show "fallback_harden (cps ''Contact me at jane@acme.com'') = cps ''Contact me at [ID_GATEWAY]''"
    by (simp add: harden_defs ascii_eval)
  show "fallback_harden (cps ''Call 9876543210 now'') = cps ''Call [VERIFIED_LINE] now''"
    by (simp add: harden_defs ascii_eval)
qed

theorem fallback_stages_witness:
  "fallback_spec (cps ''Call 9876543210 now'') (cps ''Call [VERIFIED_LINE] now'')"
proof -
  from fallback_stages [of "cps ''Call 9876543210 now''"]
  have "fallback_spec (cps ''Call 9876543210 now'') (fallback_harden (cps ''Call 9876543210 now''))"
    and "fallback_harden (cps ''Call 9876543210 now'') = cps ''Call [VERIFIED_LINE] now''"
    by blast+
  then show ?thesis
    by simp
qed

section \<open>Terms inside longer words\<close>






















end
